theory Spec2Isabelle
  imports Main "HOL-Library.Sublist"
begin

section \<open>JavaScript string and number helpers used by api_whatsapp.js\<close>

text \<open>
  A string is a list of code units, and a \<open>char\<close> is the code unit of its value: the
  strings of the model are the JavaScript strings whose code units lie in U+0000 to U+00FF.
  Only the operations the source calls are modelled: \<^verbatim>\<open>includes\<close>, \<^verbatim>\<open>startsWith\<close> (the library's \<open>prefix\<close>),
  the two \<^verbatim>\<open>replace\<close> calls with the regular expressions \<^verbatim>\<open>/\/$/\<close> and
  \<^verbatim>\<open>/^\//\<close>, \<^verbatim>\<open>trim\<close>, the decimal rendering of the page counter inside the
  template literals, \<^verbatim>\<open>parseInt\<close> and \<^verbatim>\<open>slice(0, n)\<close>.
\<close>

fun includes_js :: "string \<Rightarrow> string \<Rightarrow> bool" where
  "includes_js [] sub = (sub = [])"
| "includes_js (c # cs) sub = (prefix sub (c # cs) \<or> includes_js cs sub)"

definition strip_trailing_slash :: "string \<Rightarrow> string" where
  \<comment> \<open>\<^verbatim>\<open>s.replace(/\/$/, "")\<close>: at most one slash, at the very end\<close>
  "strip_trailing_slash s = (if s \<noteq> [] \<and> last s = CHR ''/'' then butlast s else s)"

definition strip_leading_slash :: "string \<Rightarrow> string" where
  \<comment> \<open>\<^verbatim>\<open>s.replace(/^\//, "")\<close>: at most one slash, at the very start\<close>
  "strip_leading_slash s = (case s of [] \<Rightarrow> [] | c # r \<Rightarrow> if c = CHR ''/'' then r else s)"

definition is_ws :: "char \<Rightarrow> bool" where
  \<comment> \<open>the white space and line terminators of ECMAScript up to U+00FF, which
      \<^verbatim>\<open>trim\<close> and \<^verbatim>\<open>parseInt\<close> skip: TAB, LF, VT, FF, CR, SP and NBSP (U+00A0)\<close>
  "is_ws c = (c \<in> set [CHR 0x09, CHR 0x0A, CHR 0x0B, CHR 0x0C, CHR 0x0D, CHR 0x20, CHR 0xA0])"

definition trim :: "string \<Rightarrow> string" where
  "trim s = rev (dropWhile is_ws (rev (dropWhile is_ws s)))"

definition digit_char :: "nat \<Rightarrow> char" where
  "digit_char d = char_of (48 + d)"

fun decimal :: "nat \<Rightarrow> string" where
  "decimal n = (if n < 10 then [digit_char n] else decimal (n div 10) @ [digit_char (n mod 10)])"

declare decimal.simps [simp del]

definition digit_val :: "char \<Rightarrow> nat option" where
  "digit_val c =
     (let k = (of_char c :: nat)
      in if 48 \<le> k \<and> k \<le> 57 then Some (k - 48)
         else if 97 \<le> k \<and> k \<le> 122 then Some (k - 87)
         else if 65 \<le> k \<and> k \<le> 90 then Some (k - 55)
         else None)"

definition in_radix :: "nat \<Rightarrow> char \<Rightarrow> bool" where
  "in_radix r c = (case digit_val c of None \<Rightarrow> False | Some d \<Rightarrow> d < r)"

definition digits_value :: "nat \<Rightarrow> string \<Rightarrow> nat" where
  "digits_value r ds = foldl (\<lambda>a c. a * r + (case digit_val c of None \<Rightarrow> 0 | Some d \<Rightarrow> d)) 0 ds"

text \<open>
  \<^verbatim>\<open>parseInt(s)\<close> with no radix argument: leading white space is skipped, one sign is
  read, a prefix \<^verbatim>\<open>0x\<close> or \<^verbatim>\<open>0X\<close> selects radix 16, and the longest run of digits of
  the radix is the value; \<open>None\<close> is NaN. The value is kept as an unbounded integer: the
  rounding of a very long digit string to a double changes neither the sign of the value nor
  whether it is zero, and it does not change the outcome of a comparison with an array length.
\<close>

definition parseInt :: "string \<Rightarrow> int option" where
  "parseInt s =
     (let t = dropWhile is_ws s;
          neg = (t \<noteq> [] \<and> hd t = CHR ''-'');
          u = (if t \<noteq> [] \<and> (hd t = CHR ''-'' \<or> hd t = CHR ''+'') then tl t else t);
          hex = (prefix ''0x'' u \<or> prefix ''0X'' u);
          radix = (if hex then 16 else 10);
          v = (if hex then drop 2 u else u);
          ds = takeWhile (in_radix radix) v
      in if ds = [] then None
         else Some ((if neg then - 1 else 1) * int (digits_value radix ds)))"

definition slice0 :: "'a list \<Rightarrow> int \<Rightarrow> 'a list" where
  \<comment> \<open>\<^verbatim>\<open>xs.slice(0, n)\<close>: a negative end counts from the end of the array\<close>
  "slice0 xs n =
     (let len = int (length xs);
          final = (if n < 0 then max (len + n) 0 else min n len)
      in take (nat final) xs)"

section \<open>The two collaborators: HTTP fetcher and HTML query engine\<close>

text \<open>
  A parsed document is represented by what the three selector queries of the source return
  on it:
  \<^item> \<open>group_cards\<close>: the elements matched by \<^verbatim>\<open>div.card.group, div.card.group.vip\<close>, each
    reduced to the \<^verbatim>\<open>href\<close> of the first \<^verbatim>\<open>a[href]\<close> inside its \<^verbatim>\<open>div.card-body\<close>
    (\<open>None\<close> when there is no such anchor);
  \<^item> \<open>cta_data_urls\<close>: the \<^verbatim>\<open>data-url\<close> attributes of the elements matched by
    \<^verbatim>\<open>a.btn.btn-success.btn-block[data-url]\<close> under \<^verbatim>\<open>.card-body\<close>, in document order;
  \<^item> \<open>category_anchors\<close>: the elements matched by
    \<^verbatim>\<open>.row-categories .col-category a.category\<close>, each with the text of its
    \<^verbatim>\<open>.category-name\<close> descendants and its own \<^verbatim>\<open>href\<close> attribute, if any.
\<close>

datatype card = Card (card_href: "string option")

record category_anchor =
  name_text :: string
  anchor_href :: "string option"

record document =
  group_cards :: "card list"
  cta_data_urls :: "string list"
  category_anchors :: "category_anchor list"

text \<open>
  \<open>axios_get\<close> is given the URLs requested so far (the request log) and the URL requested
  now, so an answer may depend on the whole history of the run; \<open>None\<close> is a rejected
  promise (network or HTTP error). \<open>cheerio_load\<close> parses a response body; \<open>None\<close> is a
  thrown exception.
\<close>

record site =
  axios_get :: "string list \<Rightarrow> string \<Rightarrow> string option"
  cheerio_load :: "string \<Rightarrow> document option"

definition fetch_doc :: "site \<Rightarrow> string list \<Rightarrow> string \<Rightarrow> document option" where
  \<comment> \<open>\<^verbatim>\<open>cheerio.load((await axios.get(url)).data)\<close>; \<open>None\<close> when either step throws\<close>
  "fetch_doc w log u = (case axios_get w log u of None \<Rightarrow> None | Some body \<Rightarrow> cheerio_load w body)"

section \<open>getWhatsappGroupLinks\<close>

definition marker :: string where
  "marker = ''chat.whatsapp.com''"

definition page_url :: "string \<Rightarrow> nat \<Rightarrow> string" where
  "page_url baseUrl pageCounter =
     (if includes_js baseUrl ''/page/'' then baseUrl @ ''/page/'' @ decimal pageCounter
      else baseUrl @ ''?page='' @ decimal pageCounter)"

definition resolve_href :: "string \<Rightarrow> string \<Rightarrow> string" where
  \<comment> \<open>lines 60 to 63\<close>
  "resolve_href baseUrl href =
     (if \<not> prefix ''http'' href
      then strip_trailing_slash baseUrl @ ''/'' @ strip_leading_slash href
      else href)"

text \<open>
  One pass through the body of the \<^verbatim>\<open>for\<close> loop (lines 55 to 79). The state is the array
  \<^verbatim>\<open>allGroupLinks\<close> and the request log. A failed detail fetch is caught and the loop
  continues.
\<close>

definition visit_card ::
  "site \<Rightarrow> string \<Rightarrow> card \<Rightarrow> string list \<times> string list \<Rightarrow> string list \<times> string list" where
  "visit_card w baseUrl c st =
     (case st of (allGroupLinks, log) \<Rightarrow>
        (case card_href c of
           None \<Rightarrow> (allGroupLinks, log)
         | Some href \<Rightarrow>
             (let detailPageUrl = resolve_href baseUrl href
              in case fetch_doc w log detailPageUrl of
                   None \<Rightarrow> (allGroupLinks, log @ [detailPageUrl])
                 | Some d \<Rightarrow>
                     (case cta_data_urls d of
                        [] \<Rightarrow> (allGroupLinks, log @ [detailPageUrl])
                      | whatsappGroupLink # _ \<Rightarrow>
                          if includes_js whatsappGroupLink marker
                          then (allGroupLinks @ [whatsappGroupLink], log @ [detailPageUrl])
                          else (allGroupLinks, log @ [detailPageUrl])))))"

fun for_cards ::
  "site \<Rightarrow> string \<Rightarrow> int \<Rightarrow> card list \<Rightarrow> string list \<times> string list \<Rightarrow> string list \<times> string list" where
  "for_cards w baseUrl numLinksToGet [] st = st"
| "for_cards w baseUrl numLinksToGet (c # cs) st =
     (if int (length (fst st)) < numLinksToGet
      then for_cards w baseUrl numLinksToGet cs (visit_card w baseUrl c st)
      else st)"

text \<open>
  The \<^verbatim>\<open>while\<close> loop (lines 38 to 86). It need not terminate, so it is a partial function:
  \<open>None\<close> is a run that never leaves the loop.
\<close>

partial_function (option) while_pages ::
  "site \<Rightarrow> string \<Rightarrow> int \<Rightarrow> string list \<Rightarrow> nat \<Rightarrow> string list \<Rightarrow> (string list \<times> string list) option" where
  "while_pages w baseUrl numLinksToGet allGroupLinks pageCounter log =
     (if int (length allGroupLinks) < numLinksToGet then
        (let currentUrl = page_url baseUrl pageCounter
         in case fetch_doc w log currentUrl of
              None \<Rightarrow> Some (allGroupLinks, log @ [currentUrl])
            | Some d \<Rightarrow>
                if group_cards d = [] then Some (allGroupLinks, log @ [currentUrl])
                else (case for_cards w baseUrl numLinksToGet (group_cards d)
                             (allGroupLinks, log @ [currentUrl]) of
                        (links', log') \<Rightarrow>
                          while_pages w baseUrl numLinksToGet links' (pageCounter + 1) log'))
      else Some (allGroupLinks, log))"

declare while_pages.simps [code]

definition getWhatsappGroupLinks ::
  "site \<Rightarrow> string \<Rightarrow> int \<Rightarrow> string list \<Rightarrow> (string list \<times> string list) option" where
  "getWhatsappGroupLinks w baseUrl numLinksToGet log =
     (case while_pages w baseUrl numLinksToGet [] 1 log of
        None \<Rightarrow> None
      | Some (allGroupLinks, log') \<Rightarrow> Some (slice0 allGroupLinks numLinksToGet, log'))"

section \<open>getCategories\<close>

record category =
  name :: string
  url :: string

definition each_category :: "category list \<Rightarrow> category_anchor \<Rightarrow> category list" where
  \<comment> \<open>the callback of \<^verbatim>\<open>.each\<close> (lines 100 to 104); \<^verbatim>\<open>name && url\<close> holds when the
      trimmed text is not empty and the attribute is present and not empty\<close>
  "each_category categories el =
     (let nm = trim (name_text el)
      in case anchor_href el of
           None \<Rightarrow> categories
         | Some u \<Rightarrow> if nm \<noteq> [] \<and> u \<noteq> [] then categories @ [\<lparr>name = nm, url = u\<rparr>] else categories)"

definition getCategories :: "site \<Rightarrow> string \<Rightarrow> string list \<Rightarrow> category list \<times> string list" where
  \<comment> \<open>the \<^verbatim>\<open>catch\<close> branch writes to the console and returns the empty array\<close>
  "getCategories w baseUrl log =
     (case fetch_doc w log baseUrl of
        None \<Rightarrow> ([], log @ [baseUrl])
      | Some d \<Rightarrow> (foldl each_category [] (category_anchors d), log @ [baseUrl]))"

section \<open>The two request handlers\<close>

record request =
  base_url :: "string option"
  num_links :: "string option"

text \<open>
  The payloads stand for the JSON bodies of the source: \<open>Invalid_Parameters\<close> for
  the error of line 153, \<open>No_Links_Found\<close> for the error of line 159.
\<close>

datatype payload =
    Invalid_Parameters
  | No_Links_Found
  | Links "string list"
  | Categories "category list"

datatype response = Response (status: nat) (body: payload)

definition default_base_url :: string where
  "default_base_url = ''https://gruposwhats.app''"

definition query_base_url :: "request \<Rightarrow> string" where
  \<comment> \<open>\<^verbatim>\<open>req.query.base_url || "https://gruposwhats.app"\<close>\<close>
  "query_base_url req =
     (case base_url req of None \<Rightarrow> default_base_url
      | Some s \<Rightarrow> if s = [] then default_base_url else s)"

definition query_num_links :: "request \<Rightarrow> int" where
  \<comment> \<open>\<^verbatim>\<open>parseInt(req.query.num_links) || 5\<close>; an absent parameter is the value
      \<^verbatim>\<open>undefined\<close>, which \<^verbatim>\<open>parseInt\<close> reads as the string "undefined"; NaN and 0 are
      the falsy numbers\<close>
  "query_num_links req =
     (case parseInt (case num_links req of None \<Rightarrow> ''undefined'' | Some s \<Rightarrow> s) of
        None \<Rightarrow> 5
      | Some v \<Rightarrow> if v = 0 then 5 else v)"

text \<open>
  The handler of \<^verbatim>\<open>/get_whatsapp_links\<close> returns the response and the log of the
  requests it caused; \<open>None\<close> is a request that is never answered. Every exception that the
  modelled operations of \<open>getWhatsappGroupLinks\<close> can throw is caught inside it, so the
  \<^verbatim>\<open>catch\<close> branch of the handler (status 500) has no counterpart here.
\<close>

definition get_whatsapp_links :: "site \<Rightarrow> request \<Rightarrow> (response \<times> string list) option" where
  "get_whatsapp_links w req =
     (let baseUrl = query_base_url req;
          numLinks = query_num_links req
      in if baseUrl = [] \<or> numLinks \<le> 0 then Some (Response 400 Invalid_Parameters, [])
         else (case getWhatsappGroupLinks w baseUrl numLinks [] of
                 None \<Rightarrow> None
               | Some (links, log) \<Rightarrow>
                   if length links = 0 then Some (Response 404 No_Links_Found, log)
                   else Some (Response 200 (Links links), log)))"

definition get_categories :: "site \<Rightarrow> request \<Rightarrow> response \<times> string list" where
  "get_categories w req =
     (let baseUrl = query_base_url req
      in case getCategories w baseUrl [] of
           (categories, log) \<Rightarrow> (Response 200 (Categories categories), log))"

section \<open>Notions of the specification\<close>

text \<open>
  Follows the spec's words: the valid invite links the site yields before pagination ends.
  This is the crawl of the listing pages with no target: every card of every page is
  visited, and the crawl ends at the first listing page that cannot be fetched or has no
  group card. \<open>None\<close> is a pagination that never ends.
\<close>

partial_function (option) all_pages ::
  "site \<Rightarrow> string \<Rightarrow> string list \<Rightarrow> nat \<Rightarrow> string list \<Rightarrow> string list option" where
  "all_pages w baseUrl found pageCounter log =
     (let currentUrl = page_url baseUrl pageCounter
      in case fetch_doc w log currentUrl of
           None \<Rightarrow> Some found
         | Some d \<Rightarrow>
             if group_cards d = [] then Some found
             else (case foldl (\<lambda>st c. visit_card w baseUrl c st) (found, log @ [currentUrl])
                          (group_cards d) of
                     (found', log') \<Rightarrow> all_pages w baseUrl found' (pageCounter + 1) log'))"

declare all_pages.simps [code]

definition available_links :: "site \<Rightarrow> string \<Rightarrow> string list \<Rightarrow> nat option" where
  "available_links w baseUrl log = map_option length (all_pages w baseUrl [] 1 log)"

text \<open>
  Follows the spec's words: an anchor is listed when its trimmed name and its href are both
  non-empty, and then it is listed as that pair.
\<close>

definition category_of :: "category_anchor \<Rightarrow> category option" where
  "category_of el =
     (case anchor_href el of
        None \<Rightarrow> None
      | Some u \<Rightarrow>
          if trim (name_text el) = [] \<or> u = [] then None
          else Some \<lparr>name = trim (name_text el), url = u\<rparr>)"

text \<open>
  Follows the spec's words: an href "already has a scheme" when it starts with a letter
  followed by letters, digits, \<^verbatim>\<open>+\<close>, \<^verbatim>\<open>-\<close> or \<^verbatim>\<open>.\<close> up to a colon.
\<close>

definition is_alpha :: "char \<Rightarrow> bool" where
  "is_alpha c = (let k = (of_char c :: nat) in (65 \<le> k \<and> k \<le> 90) \<or> (97 \<le> k \<and> k \<le> 122))"

definition is_scheme_char :: "char \<Rightarrow> bool" where
  "is_scheme_char c =
     (let k = (of_char c :: nat)
      in is_alpha c \<or> (48 \<le> k \<and> k \<le> 57) \<or> c = CHR ''+'' \<or> c = CHR ''-'' \<or> c = CHR ''.'')"

definition has_scheme :: "string \<Rightarrow> bool" where
  "has_scheme href =
     (case href of
        [] \<Rightarrow> False
      | c # r \<Rightarrow> is_alpha c \<and> (case dropWhile is_scheme_char r of [] \<Rightarrow> False | d # _ \<Rightarrow> d = CHR '':''))"

section \<open>Example sites\<close>

text \<open>
  A site with one listing page of five cards: two lead to an invite link, one has no
  anchor, one has a detail page that cannot be fetched, one has a call to action that is not
  an invite link. The second listing page cannot be fetched. The home page has five
  category anchors, one of them named by a no-break space only, and the body served at \<^verbatim>\<open>/bad\<close> cannot be parsed.
\<close>

definition demo_site :: site where
  "demo_site =
     \<lparr>axios_get = (\<lambda>log. map_of
        [(''https://site.test/?page=1'', ''listing''),
         (''https://site.test/g/abc'', ''abc''),
         (''http://other.test/x'', ''x''),
         (''https://site.test/g/ad'', ''ad''),
         (''https://site.test/'', ''home''),
         (''https://site.test/bad'', ''garbled'')]),
      cheerio_load = map_of
        [(''listing'',
            \<lparr>group_cards = [Card (Some ''/g/abc''), Card None, Card (Some ''http://other.test/x''),
                            Card (Some ''/g/broken''), Card (Some ''/g/ad'')],
             cta_data_urls = [], category_anchors = []\<rparr>),
         (''abc'', \<lparr>group_cards = [], cta_data_urls = [''https://chat.whatsapp.com/AAA''],
                   category_anchors = []\<rparr>),
         (''x'', \<lparr>group_cards = [], cta_data_urls = [''https://chat.whatsapp.com/BBB''],
                 category_anchors = []\<rparr>),
         (''ad'', \<lparr>group_cards = [], cta_data_urls = [''https://example.com/join''],
                  category_anchors = []\<rparr>),
         (''home'',
            \<lparr>group_cards = [], cta_data_urls = [],
             category_anchors =
               [\<lparr>name_text = '' Games '', anchor_href = Some ''/c/games''\<rparr>,
                \<lparr>name_text = ''  '', anchor_href = Some ''/c/blank''\<rparr>,
                \<lparr>name_text = [CHR 0xA0], anchor_href = Some ''/c/nbsp''\<rparr>,
                \<lparr>name_text = ''News'', anchor_href = None\<rparr>,
                \<lparr>name_text = ''Music'', anchor_href = Some ''/c/music''\<rparr>]\<rparr>)]\<rparr>"

text \<open>A site whose every page has one group card and a call to action that is no invite link.\<close>

definition stuck_site :: site where
  "stuck_site =
     \<lparr>axios_get = (\<lambda>log u. Some ''page''),
      cheerio_load = (\<lambda>body. Some \<lparr>group_cards = [Card (Some ''/g/1'')],
                                    cta_data_urls = [''https://example.com/join''],
                                    category_anchors = []\<rparr>)\<rparr>"

text \<open>A site whose pages have no group card, and a site that cannot be reached.\<close>

definition empty_site :: site where
  "empty_site =
     \<lparr>axios_get = (\<lambda>log u. Some ''page''),
      cheerio_load = (\<lambda>body. Some \<lparr>group_cards = [], cta_data_urls = [], category_anchors = []\<rparr>)\<rparr>"

definition down_site :: site where
  "down_site = \<lparr>axios_get = (\<lambda>log u. None), cheerio_load = (\<lambda>body. None)\<rparr>"

section \<open>Properties of the loops\<close>

subsection \<open>One card, and the loop over the cards of a page\<close>

lemma visit_card_cases:
  "visit_card w b c (links, log) = (links, log) \<or>
   (\<exists>u. visit_card w b c (links, log) = (links, log @ [u])) \<or>
   (\<exists>u x. includes_js x marker \<and> visit_card w b c (links, log) = (links @ [x], log @ [u]))"
  by (auto simp: visit_card_def Let_def split: option.splits list.splits)

lemma visit_card_prefix: "prefix (fst st) (fst (visit_card w b c st))"
  using visit_card_cases [of w b c "fst st" "snd st"] by auto

lemma visit_card_length: "length (fst (visit_card w b c st)) \<le> Suc (length (fst st))"
  using visit_card_cases [of w b c "fst st" "snd st"] by auto

lemma visit_card_marker:
  "\<forall>x \<in> set (fst st). includes_js x marker \<Longrightarrow> \<forall>x \<in> set (fst (visit_card w b c st)). includes_js x marker"
  using visit_card_cases [of w b c "fst st" "snd st"] by auto

lemma for_cards_prefix: "prefix (fst st) (fst (for_cards w b n cs st))"
proof (induction cs arbitrary: st)
  case Nil
  show ?case by simp
next
  case (Cons c cs)
  show ?case
    using Cons [of "visit_card w b c st"] visit_card_prefix [of st w b c]
    by (auto intro: prefix_order.trans)
qed

lemma for_cards_length:
  "int (length (fst st)) \<le> n \<Longrightarrow> int (length (fst (for_cards w b n cs st))) \<le> n"
proof (induction cs arbitrary: st)
  case Nil
  then show ?case by simp
next
  case (Cons c cs)
  show ?case
  proof (cases "int (length (fst st)) < n")
    case True
    with visit_card_length [of w b c st] have "int (length (fst (visit_card w b c st))) \<le> n"
      by linarith
    from Cons.IH [OF this] True show ?thesis by simp
  next
    case False
    with Cons.prems show ?thesis by simp
  qed
qed

lemma for_cards_marker:
  "\<forall>x \<in> set (fst st). includes_js x marker \<Longrightarrow>
   \<forall>x \<in> set (fst (for_cards w b n cs st)). includes_js x marker"
proof (induction cs arbitrary: st)
  case Nil
  then show ?case by simp
next
  case (Cons c cs)
  from Cons.IH [OF visit_card_marker [OF Cons.prems]] Cons.prems
  show ?case by simp
qed

lemma foldl_visit_prefix: "prefix (fst st) (fst (foldl (\<lambda>st c. visit_card w b c st) st cs))"
proof (induction cs arbitrary: st)
  case Nil
  show ?case by simp
next
  case (Cons c cs)
  show ?case
    using Cons [of "visit_card w b c st"] visit_card_prefix [of st w b c]
    by (auto intro: prefix_order.trans)
qed

lemma for_cards_foldl:
  "int (length (fst (for_cards w b n cs st))) < n \<Longrightarrow>
   for_cards w b n cs st = foldl (\<lambda>st c. visit_card w b c st) st cs"
proof (induction cs arbitrary: st)
  case Nil
  show ?case by simp
next
  case (Cons c cs)
  from Cons.prems have "int (length (fst st)) < n"
    by (auto split: if_splits)
  with Cons show ?case by simp
qed

lemma for_cards_prefix_foldl:
  "prefix (fst (for_cards w b n cs st)) (fst (foldl (\<lambda>st c. visit_card w b c st) st cs))"
proof (induction cs arbitrary: st)
  case Nil
  show ?case by simp
next
  case (Cons c cs)
  show ?case
  proof (cases "int (length (fst st)) < n")
    case True
    with Cons show ?thesis by simp
  next
    case False
    have "prefix (fst st) (fst (foldl (\<lambda>st c. visit_card w b c st) st (c # cs)))"
      by (rule foldl_visit_prefix)
    with False show ?thesis by simp
  qed
qed

subsection \<open>The loop over the listing pages\<close>

lemma while_pages_inv:
  assumes "while_pages w b n links pc log = Some (r, log')"
  shows "prefix links r
       \<and> (int (length links) \<le> n \<longrightarrow> int (length r) \<le> n)
       \<and> ((\<forall>x \<in> set links. includes_js x marker) \<longrightarrow> (\<forall>x \<in> set r. includes_js x marker))"
proof -
  have "prefix links (fst y)
       \<and> (int (length links) \<le> n \<longrightarrow> int (length (fst y)) \<le> n)
       \<and> ((\<forall>x \<in> set links. includes_js x marker) \<longrightarrow> (\<forall>x \<in> set (fst y). includes_js x marker))"
    if "while_pages w b n links pc log = Some y" for y
    using that
  proof (induction w b n links pc log y rule: while_pages.raw_induct [rotated 1, consumes 1])
    case (1 f w b n links pc log y)
    show ?case
    proof (cases "int (length links) < n")
      case False
      with 1(2) show ?thesis by auto
    next
      case True
      note lt = this
      show ?thesis
      proof (cases "fetch_doc w log (page_url b pc)")
        case None
        with 1(2) lt show ?thesis by (auto simp: Let_def)
      next
        case (Some d)
        show ?thesis
        proof (cases "group_cards d = []")
          case True
          with 1(2) lt Some show ?thesis by (auto simp: Let_def)
        next
          case False
          obtain links1 log1 where fc:
            "for_cards w b n (group_cards d) (links, log @ [page_url b pc]) = (links1, log1)"
            by (cases "for_cards w b n (group_cards d) (links, log @ [page_url b pc])")
          from 1(2) lt Some False fc have rec: "f w b n links1 (pc + 1) log1 = Some y"
            by (simp add: Let_def)
          note ih = 1(1) [OF rec]
          have p1: "prefix links links1"
            using for_cards_prefix [of "(links, log @ [page_url b pc])" w b n "group_cards d"] fc
            by simp
          have l1: "int (length links) \<le> n \<Longrightarrow> int (length links1) \<le> n"
            using for_cards_length [of "(links, log @ [page_url b pc])" n w b "group_cards d"] fc
            by simp
          have m1: "\<forall>x \<in> set links. includes_js x marker \<Longrightarrow> \<forall>x \<in> set links1. includes_js x marker"
            using for_cards_marker [of "(links, log @ [page_url b pc])" w b n "group_cards d"] fc
            by simp
          from ih p1 l1 m1 show ?thesis
            by (auto intro: prefix_order.trans)
        qed
      qed
    qed
  qed
  from this [OF assms] show ?thesis by simp
qed

lemma all_pages_prefix:
  "all_pages w b links pc log = Some L \<Longrightarrow> prefix links L"
proof (induction w b links pc log L rule: all_pages.raw_induct [rotated 1, consumes 1])
  case (1 f w b links pc log L)
  show ?case
  proof (cases "fetch_doc w log (page_url b pc)")
    case None
    with 1(2) show ?thesis by (simp add: Let_def)
  next
    case (Some d)
    show ?thesis
    proof (cases "group_cards d = []")
      case True
      with 1(2) Some show ?thesis by (simp add: Let_def)
    next
      case False
      obtain links1 log1 where fc:
        "foldl (\<lambda>st c. visit_card w b c st) (links, log @ [page_url b pc]) (group_cards d) = (links1, log1)"
        by (cases "foldl (\<lambda>st c. visit_card w b c st) (links, log @ [page_url b pc]) (group_cards d)")
      from 1(2) Some False fc have rec: "f w b links1 (pc + 1) log1 = Some L"
        by (simp add: Let_def)
      have "prefix links links1"
        using foldl_visit_prefix [of "(links, log @ [page_url b pc])" w b "group_cards d"] fc
        by simp
      with 1(1) [OF rec] show ?thesis by (auto intro: prefix_order.trans)
    qed
  qed
qed

lemma prefix_take_eq: "prefix xs ys \<Longrightarrow> length xs = k \<Longrightarrow> take k ys = xs"
  by (auto simp: prefix_def)

lemma all_pages_while_pages:
  assumes "all_pages w b links pc log = Some L"
  shows "prefix links L \<and>
         (int (length links) \<le> n \<longrightarrow>
            (\<exists>log'. while_pages w b n links pc log = Some (take (nat n) L, log')))"
  using assms
proof (induction w b links pc log L rule: all_pages.raw_induct [rotated 1, consumes 1])
  case (1 f w b links pc log L)
  let ?st = "(links, log @ [page_url b pc])"
  have full: "\<exists>log'. while_pages w b n links pc log = Some (take (nat n) L, log')"
    if pl: "prefix links L" and ge: "\<not> int (length links) < n" and le: "int (length links) \<le> n"
    for links pc log
  proof -
    from ge le have "length links = nat n" by linarith
    with pl have "take (nat n) L = links" by (rule prefix_take_eq)
    with ge show ?thesis by (subst while_pages.simps) simp
  qed
  show ?case
  proof (cases "fetch_doc w log (page_url b pc)")
    case None
    with 1(2) have L: "L = links" by (simp add: Let_def)
    have "\<exists>log'. while_pages w b n links pc log = Some (take (nat n) L, log')"
      if "int (length links) < n"
      using that None L by (subst while_pages.simps) (simp add: Let_def)
    with full [of links pc log] L show ?thesis by (cases "int (length links) < n") auto
  next
    case (Some d)
    show ?thesis
    proof (cases "group_cards d = []")
      case True
      with 1(2) Some have L: "L = links" by (simp add: Let_def)
      have "\<exists>log'. while_pages w b n links pc log = Some (take (nat n) L, log')"
        if "int (length links) < n"
        using that Some True L by (subst while_pages.simps) (simp add: Let_def)
      with full [of links pc log] L show ?thesis by (cases "int (length links) < n") auto
    next
      case False
      obtain links1 log1 where fo:
        "foldl (\<lambda>st c. visit_card w b c st) ?st (group_cards d) = (links1, log1)"
        by (cases "foldl (\<lambda>st c. visit_card w b c st) ?st (group_cards d)")
      obtain links2 log2 where fc: "for_cards w b n (group_cards d) ?st = (links2, log2)"
        by (cases "for_cards w b n (group_cards d) ?st")
      from 1(2) Some False fo have rec: "f w b links1 (pc + 1) log1 = Some L"
        by (simp add: Let_def)
      note ih = 1(1) [OF rec]
      have p1: "prefix links links1"
        using foldl_visit_prefix [of ?st w b "group_cards d"] fo by simp
      with ih have pl: "prefix links L" by (auto intro: prefix_order.trans)
      have "\<exists>log'. while_pages w b n links pc log = Some (take (nat n) L, log')"
        if lt: "int (length links) < n"
      proof -
        have unf: "while_pages w b n links pc log = while_pages w b n links2 (pc + 1) log2"
          using lt Some False fc by (subst while_pages.simps) (simp add: Let_def)
        have le2: "int (length links2) \<le> n"
          using for_cards_length [of ?st n w b "group_cards d"] fc lt by simp
        show ?thesis
        proof (cases "int (length links2) < n")
          case True
          with for_cards_foldl [of w b n "group_cards d" ?st] fc fo
          have "links2 = links1" "log2 = log1" by simp_all
          with ih le2 unf show ?thesis by simp
        next
          case False
          have "prefix links2 links1"
            using for_cards_prefix_foldl [of w b n "group_cards d" ?st] fc fo by simp
          with ih have "prefix links2 L" by (auto intro: prefix_order.trans)
          from full [OF this False le2] unf show ?thesis by simp
        qed
      qed
      with full [OF pl] pl show ?thesis by (cases "int (length links) < n") auto
    qed
  qed
qed

lemma while_pages_all_pages:
  assumes "while_pages w b n links pc log = Some y"
  shows "prefix links (fst y) \<and> (int (length (fst y)) < n \<longrightarrow> all_pages w b links pc log = Some (fst y))"
  using assms
proof (induction w b n links pc log y rule: while_pages.raw_induct [rotated 1, consumes 1])
  case (1 f w b n links pc log y)
  let ?st = "(links, log @ [page_url b pc])"
  show ?case
  proof (cases "int (length links) < n")
    case False
    with 1(2) show ?thesis by auto
  next
    case True
    note lt = this
    show ?thesis
    proof (cases "fetch_doc w log (page_url b pc)")
      case None
      with 1(2) lt have "fst y = links" by (auto simp: Let_def)
      moreover from None have "all_pages w b links pc log = Some links"
        by (subst all_pages.simps) (simp add: Let_def)
      ultimately show ?thesis by simp
    next
      case (Some d)
      show ?thesis
      proof (cases "group_cards d = []")
        case True
        with 1(2) lt Some have "fst y = links" by (auto simp: Let_def)
        moreover from Some True have "all_pages w b links pc log = Some links"
          by (subst all_pages.simps) (simp add: Let_def)
        ultimately show ?thesis by simp
      next
        case False
        obtain links2 log2 where fc: "for_cards w b n (group_cards d) ?st = (links2, log2)"
          by (cases "for_cards w b n (group_cards d) ?st")
        from 1(2) lt Some False fc have rec: "f w b n links2 (pc + 1) log2 = Some y"
          by (simp add: Let_def)
        note ih = 1(1) [OF rec]
        have p2: "prefix links links2"
          using for_cards_prefix [of ?st w b n "group_cards d"] fc by simp
        with ih have pl: "prefix links (fst y)" by (auto intro: prefix_order.trans)
        have "all_pages w b links pc log = Some (fst y)" if small: "int (length (fst y)) < n"
        proof -
          from ih have "length links2 \<le> length (fst y)" by (auto dest: prefix_length_le)
          with small have "int (length links2) < n" by linarith
          with for_cards_foldl [of w b n "group_cards d" ?st] fc
          have "foldl (\<lambda>st c. visit_card w b c st) ?st (group_cards d) = (links2, log2)" by simp
          with Some False have "all_pages w b links pc log = all_pages w b links2 (pc + 1) log2"
            by (subst all_pages.simps) (simp add: Let_def)
          with ih small show ?thesis by simp
        qed
        with pl show ?thesis by simp
      qed
    qed
  qed
qed

subsection \<open>A site that never yields an invite link\<close>

lemma visit_card_no_invite:
  assumes "\<forall>log u d. fetch_doc w log u = Some d \<longrightarrow>
             (case cta_data_urls d of [] \<Rightarrow> True | x # _ \<Rightarrow> \<not> includes_js x marker)"
  shows "fst (visit_card w b c st) = fst st"
proof (cases st)
  case (Pair links log)
  show ?thesis
  proof (cases "card_href c")
    case None
    with Pair show ?thesis by (simp add: visit_card_def)
  next
    case (Some href)
    show ?thesis
    proof (cases "fetch_doc w log (resolve_href b href)")
      case None
      with Pair Some show ?thesis by (simp add: visit_card_def)
    next
      case (Some d)
      with assms have "case cta_data_urls d of [] \<Rightarrow> True | x # _ \<Rightarrow> \<not> includes_js x marker"
        by blast
      with Pair \<open>card_href c = Some href\<close> Some show ?thesis
        by (simp add: visit_card_def split: list.splits)
    qed
  qed
qed

lemma for_cards_no_invite:
  assumes "\<forall>log u d. fetch_doc w log u = Some d \<longrightarrow>
             (case cta_data_urls d of [] \<Rightarrow> True | x # _ \<Rightarrow> \<not> includes_js x marker)"
  shows "fst (for_cards w b n cs st) = fst st"
proof (induction cs arbitrary: st)
  case Nil
  show ?case by simp
next
  case (Cons c cs)
  from Cons [of "visit_card w b c st"] visit_card_no_invite [OF assms, of b c st]
  show ?case by simp
qed

lemma while_pages_never_returns:
  assumes "while_pages w b n links pc log = Some y"
    and "links = []" and "0 < n"
    and "\<forall>log pc. \<exists>d. fetch_doc w log (page_url b pc) = Some d \<and> group_cards d \<noteq> []"
    and "\<forall>log u d. fetch_doc w log u = Some d \<longrightarrow>
           (case cta_data_urls d of [] \<Rightarrow> True | x # _ \<Rightarrow> \<not> includes_js x marker)"
  shows False
  using assms
proof (induction w b n links pc log y rule: while_pages.raw_induct [rotated 1, consumes 1])
  case (1 f w b n links pc log y)
  from 1(5) obtain d where d: "fetch_doc w log (page_url b pc) = Some d" "group_cards d \<noteq> []"
    by blast
  obtain links2 log2 where fc:
    "for_cards w b n (group_cards d) (links, log @ [page_url b pc]) = (links2, log2)"
    by (cases "for_cards w b n (group_cards d) (links, log @ [page_url b pc])")
  from for_cards_no_invite [OF 1(6), of b n "group_cards d" "(links, log @ [page_url b pc])"] fc 1(3)
  have l2: "links2 = []" by simp
  from 1(2) 1(3) 1(4) d fc have "f w b n links2 (pc + 1) log2 = Some y"
    by (simp add: Let_def)
  from 1(1) [OF this l2 1(4) 1(5) 1(6)] show False .
qed

lemma never_invite_diverges:
  assumes "0 < n"
    and "\<forall>log pc. \<exists>d. fetch_doc w log (page_url b pc) = Some d \<and> group_cards d \<noteq> []"
    and "\<forall>log u d. fetch_doc w log u = Some d \<longrightarrow>
           (case cta_data_urls d of [] \<Rightarrow> True | x # _ \<Rightarrow> \<not> includes_js x marker)"
  shows "getWhatsappGroupLinks w b n log = None"
proof (cases "while_pages w b n [] 1 log")
  case None
  then show ?thesis by (simp add: getWhatsappGroupLinks_def)
next
  case (Some y)
  from while_pages_never_returns [OF Some refl assms] show ?thesis ..
qed

lemma stuck_site_fetch:
  "fetch_doc stuck_site log u =
     Some \<lparr>group_cards = [Card (Some ''/g/1'')], cta_data_urls = [''https://example.com/join''],
           category_anchors = []\<rparr>"
  by (simp add: fetch_doc_def stuck_site_def)

subsection \<open>The result of the collector, the categories, the query parameters\<close>

lemma slice0_short: "int (length xs) \<le> n \<Longrightarrow> slice0 xs n = xs"
  by (simp add: slice0_def Let_def min_def)

lemma set_slice0: "set (slice0 xs n) \<subseteq> set xs"
  by (simp add: slice0_def Let_def set_take_subset)

lemma getWhatsappGroupLinks_while:
  assumes "0 \<le> n"
  shows "getWhatsappGroupLinks w b n log = while_pages w b n [] 1 log"
proof (cases "while_pages w b n [] 1 log")
  case None
  then show ?thesis by (simp add: getWhatsappGroupLinks_def)
next
  case (Some y)
  obtain r log' where y: "y = (r, log')" by (cases y)
  from while_pages_inv [of w b n "[]" 1 log r log'] Some y assms
  have "int (length r) \<le> n" by simp
  with Some y show ?thesis by (simp add: getWhatsappGroupLinks_def slice0_short)
qed

lemma query_base_url_nonempty: "query_base_url req \<noteq> []"
  by (simp add: query_base_url_def default_base_url_def split: option.splits)

lemma each_category_step:
  "each_category acc el = acc @ (case category_of el of None \<Rightarrow> [] | Some c \<Rightarrow> [c])"
  by (simp add: each_category_def category_of_def Let_def split: option.splits)

lemma foldl_each_category:
  "foldl each_category acc els = acc @ List.map_filter category_of els"
proof (induction els arbitrary: acc)
  case Nil
  show ?case by (simp add: List.map_filter_simps)
next
  case (Cons el els)
  have "foldl each_category acc (el # els) = foldl each_category (each_category acc el) els"
    by simp
  also have "\<dots> = each_category acc el @ List.map_filter category_of els"
    by (rule Cons)
  also have "\<dots> = acc @ List.map_filter category_of (el # els)"
    by (simp add: each_category_step List.map_filter_simps split: option.splits)
  finally show ?case .
qed

lemma parseInt_undefined: "parseInt ''undefined'' = None"
  by code_simp

lemma parseInt_skips_nbsp: "parseInt [CHR 0xA0, CHR ''7''] = Some 7"
  by code_simp

lemma trim_strips_nbsp: "trim [CHR 0xA0, CHR ''a'', CHR 0xA0] = ''a''"
  by code_simp

lemma negative_num_links_rejected:
  assumes "num_links req = Some s" and "parseInt s = Some v" and "v < 0"
  shows "get_whatsapp_links w req = Some (Response 400 Invalid_Parameters, [])"
  using assms by (simp add: get_whatsapp_links_def query_num_links_def Let_def)

subsection \<open>Runs on the example sites\<close>

lemma demo_run_1:
  "getWhatsappGroupLinks demo_site ''https://site.test/'' 1 [] =
     Some ([''https://chat.whatsapp.com/AAA''],
           [''https://site.test/?page=1'', ''https://site.test/g/abc''])"
  by code_simp

lemma demo_available: "available_links demo_site ''https://site.test/'' [] = Some 2"
  by code_simp

lemma demo_run_5:
  "getWhatsappGroupLinks demo_site ''https://site.test/'' 5 [] =
     Some ([''https://chat.whatsapp.com/AAA'', ''https://chat.whatsapp.com/BBB''],
           [''https://site.test/?page=1'', ''https://site.test/g/abc'', ''http://other.test/x'',
            ''https://site.test/g/broken'', ''https://site.test/g/ad'', ''https://site.test/?page=2''])"
  by code_simp

lemma demo_ad_card:
  "card_href (Card (Some ''/g/ad'')) = Some ''/g/ad''
   \<and> fetch_doc demo_site [] (resolve_href ''https://site.test/'' ''/g/ad'') =
       Some \<lparr>group_cards = [], cta_data_urls = [''https://example.com/join''], category_anchors = []\<rparr>
   \<and> cta_data_urls \<lparr>group_cards = [], cta_data_urls = [''https://example.com/join''], category_anchors = []\<rparr>
       = ''https://example.com/join'' # []
   \<and> \<not> includes_js ''https://example.com/join'' marker"
  by code_simp

lemma demo_page2_fails:
  "int (length [''https://chat.whatsapp.com/AAA'', ''https://chat.whatsapp.com/BBB'']) < 5
   \<and> axios_get demo_site [''https://site.test/?page=1''] (page_url ''https://site.test/'' 2) = None"
  by code_simp

lemma down_site_page1_fails:
  "(0::int) < 5 \<and> axios_get down_site [] (page_url ''https://site.test/'' 1) = None"
  by (simp add: down_site_def)

lemma down_site_default_request:
  "0 < query_num_links \<lparr>base_url = None, num_links = None\<rparr>
   \<and> axios_get down_site [] (page_url (query_base_url \<lparr>base_url = None, num_links = None\<rparr>) 1) = None"
proof -
  have "0 < query_num_links \<lparr>base_url = None, num_links = None\<rparr>"
    by code_simp
  then show ?thesis by (simp add: down_site_def)
qed

lemma demo_broken_card:
  "int (length [''https://chat.whatsapp.com/AAA'']) < 5
   \<and> card_href (Card (Some ''/g/broken'')) = Some ''/g/broken''
   \<and> axios_get demo_site [] (resolve_href ''https://site.test/'' ''/g/broken'') = None"
  by code_simp

lemma empty_site_first_page:
  "fetch_doc empty_site [] (page_url ''https://gruposwhats.app'' 1) =
     Some \<lparr>group_cards = [], cta_data_urls = [], category_anchors = []\<rparr>
   \<and> group_cards \<lparr>group_cards = [], cta_data_urls = [], category_anchors = []\<rparr> = []"
  by (simp add: fetch_doc_def empty_site_def)

lemma empty_site_run:
  "0 < query_num_links \<lparr>base_url = None, num_links = None\<rparr>
   \<and> getWhatsappGroupLinks empty_site (query_base_url \<lparr>base_url = None, num_links = None\<rparr>)
        (query_num_links \<lparr>base_url = None, num_links = None\<rparr>) [] =
      Some ([], [''https://gruposwhats.app?page=1''])"
  by code_simp

lemma demo_home:
  "fetch_doc demo_site [] ''https://site.test/'' =
     Some \<lparr>group_cards = [], cta_data_urls = [],
           category_anchors =
             [\<lparr>name_text = '' Games '', anchor_href = Some ''/c/games''\<rparr>,
              \<lparr>name_text = ''  '', anchor_href = Some ''/c/blank''\<rparr>,
              \<lparr>name_text = [CHR 0xA0], anchor_href = Some ''/c/nbsp''\<rparr>,
              \<lparr>name_text = ''News'', anchor_href = None\<rparr>,
              \<lparr>name_text = ''Music'', anchor_href = Some ''/c/music''\<rparr>]\<rparr>"
  by code_simp

lemma demo_home_listed:
  "List.map_filter category_of (category_anchors
     \<lparr>group_cards = [], cta_data_urls = [],
           category_anchors =
             [\<lparr>name_text = '' Games '', anchor_href = Some ''/c/games''\<rparr>,
              \<lparr>name_text = ''  '', anchor_href = Some ''/c/blank''\<rparr>,
              \<lparr>name_text = [CHR 0xA0], anchor_href = Some ''/c/nbsp''\<rparr>,
              \<lparr>name_text = ''News'', anchor_href = None\<rparr>,
              \<lparr>name_text = ''Music'', anchor_href = Some ''/c/music''\<rparr>]\<rparr>)
   = [\<lparr>name = ''Games'', url = ''/c/games''\<rparr>, \<lparr>name = ''Music'', url = ''/c/music''\<rparr>]"
  by code_simp

lemma down_site_fails:
  "axios_get down_site [] ''https://site.test/'' = None
   \<or> (\<exists>body. axios_get down_site [] ''https://site.test/'' = Some body \<and> cheerio_load down_site body = None)"
  by (simp add: down_site_def)

lemma demo_bad_fails:
  "axios_get demo_site [] (query_base_url \<lparr>base_url = Some ''https://site.test/bad'', num_links = None\<rparr>) = None
   \<or> (\<exists>body. axios_get demo_site [] (query_base_url \<lparr>base_url = Some ''https://site.test/bad'', num_links = None\<rparr>) = Some body
        \<and> cheerio_load demo_site body = None)"
proof -
  have "axios_get demo_site [] (query_base_url \<lparr>base_url = Some ''https://site.test/bad'', num_links = None\<rparr>) = Some ''garbled''
     \<and> cheerio_load demo_site ''garbled'' = None"
    by code_simp
  then show ?thesis by blast
qed

lemma absent_num_links:
  "num_links \<lparr>base_url = Some ''https://site.test/'', num_links = None\<rparr> = None
   \<or> (\<exists>s. num_links \<lparr>base_url = Some ''https://site.test/'', num_links = None\<rparr> = Some s
        \<and> (parseInt s = None \<or> parseInt s = Some 0))"
  by simp

lemma nonnumeric_num_links:
  "num_links \<lparr>base_url = Some ''https://site.test/'', num_links = Some ''many''\<rparr> = None
   \<or> (\<exists>s. num_links \<lparr>base_url = Some ''https://site.test/'', num_links = Some ''many''\<rparr> = Some s
        \<and> (parseInt s = None \<or> parseInt s = Some 0))"
proof -
  have "parseInt ''many'' = None" by code_simp
  then show ?thesis by simp
qed

lemma zero_num_links:
  "num_links \<lparr>base_url = Some ''https://site.test/'', num_links = Some ''0''\<rparr> = None
   \<or> (\<exists>s. num_links \<lparr>base_url = Some ''https://site.test/'', num_links = Some ''0''\<rparr> = Some s
        \<and> (parseInt s = None \<or> parseInt s = Some 0))"
proof -
  have "parseInt ''0'' = Some 0" by code_simp
  then show ?thesis by simp
qed

lemma nbsp_zero_num_links:
  "num_links \<lparr>base_url = Some ''https://site.test/'', num_links = Some [CHR 0xA0, CHR ''0'']\<rparr> = None
   \<or> (\<exists>s. num_links \<lparr>base_url = Some ''https://site.test/'', num_links = Some [CHR 0xA0, CHR ''0'']\<rparr> = Some s
        \<and> (parseInt s = None \<or> parseInt s = Some 0))"
proof -
  have "parseInt [CHR 0xA0, CHR ''0''] = Some 0" by code_simp
  then show ?thesis by simp
qed

lemma other_has_http: "prefix ''http'' ''http://other.test/x''"
  by simp

lemma relative_no_slashes:
  "\<not> prefix ''http'' ''g/abc'' \<and> (''g/abc'' = [] \<or> hd ''g/abc'' \<noteq> CHR ''/'')
   \<and> (''https://site.test'' = [] \<or> last ''https://site.test'' \<noteq> CHR ''/'')"
  by simp

section \<open>The claims\<close>

text \<open>
  C1. The claim: every request whose \<^verbatim>\<open>num_links\<close> denotes a value of at most 0 is
  answered with status 400 before any fetch. The source does so for the negative values
  (\<open>negative_num_links_rejected\<close>), but not for 0: \<^verbatim>\<open>parseInt(...) || 5\<close> replaces the
  falsy 0 by 5 before the test \<^verbatim>\<open>numLinks <= 0\<close> is reached. The request
  \<^verbatim>\<open>num_links=0\<close> on the example site is answered with status 200 and two links, after
  six fetches.
\<close>

theorem zero_num_links_is_served:
  "get_whatsapp_links demo_site \<lparr>base_url = Some ''https://site.test/'', num_links = Some ''0''\<rparr> =
     Some (Response 200 (Links [''https://chat.whatsapp.com/AAA'', ''https://chat.whatsapp.com/BBB'']),
           [''https://site.test/?page=1'', ''https://site.test/g/abc'', ''http://other.test/x'',
            ''https://site.test/g/broken'', ''https://site.test/g/ad'', ''https://site.test/?page=2''])"
  by code_simp

text \<open>
  C2. For every target greater than 0 and every behaviour of the collaborators, a sequence
  returned by the link collector has at most target entries, and its length is the minimum
  of the target and the number of invite links the site yields before pagination ends
  (the target itself when pagination never ends). When pagination ends, the collector
  returns.
\<close>

theorem collector_length_min_target_available:
  assumes "0 < n"
  shows "(\<forall>r log'. getWhatsappGroupLinks w b n log = Some (r, log') \<longrightarrow>
            length r \<le> nat n \<and>
            (case available_links w b log of
               Some k \<Rightarrow> length r = min (nat n) k
             | None \<Rightarrow> length r = nat n))
       \<and> (available_links w b log \<noteq> None \<longrightarrow> getWhatsappGroupLinks w b n log \<noteq> None)"
proof -
  from assms have eq: "getWhatsappGroupLinks w b n log = while_pages w b n [] 1 log"
    by (simp add: getWhatsappGroupLinks_while)
  have ret: "\<exists>log'. while_pages w b n [] 1 log = Some (take (nat n) L, log')"
    if "all_pages w b [] 1 log = Some L" for L
    using all_pages_while_pages [OF that, of n] assms by simp
  have part1: "length r \<le> nat n \<and>
            (case available_links w b log of
               Some k \<Rightarrow> length r = min (nat n) k
             | None \<Rightarrow> length r = nat n)"
    if run: "while_pages w b n [] 1 log = Some (r, log')" for r log'
  proof -
    from while_pages_inv [OF run] assms have le: "int (length r) \<le> n" by simp
    show ?thesis
    proof (cases "all_pages w b [] 1 log")
      case (Some L)
      from ret [OF Some] run have "r = take (nat n) L" by auto
      with Some le show ?thesis by (simp add: available_links_def)
    next
      case None
      have "\<not> int (length r) < n"
      proof
        assume "int (length r) < n"
        with while_pages_all_pages [OF run] None show False by simp
      qed
      with le have "length r = nat n" by linarith
      with None show ?thesis by (simp add: available_links_def)
    qed
  qed
  have part2: "getWhatsappGroupLinks w b n log \<noteq> None" if "available_links w b log \<noteq> None"
  proof -
    from that obtain L where "all_pages w b [] 1 log = Some L"
      by (auto simp: available_links_def)
    from ret [OF this] eq show ?thesis by auto
  qed
  from part1 part2 eq show ?thesis by auto
qed

theorem collector_length_min_target_available_witness:
  "(0::int) < 1
   \<and> getWhatsappGroupLinks demo_site ''https://site.test/'' 1 [] =
        Some ([''https://chat.whatsapp.com/AAA''],
              [''https://site.test/?page=1'', ''https://site.test/g/abc''])
   \<and> available_links demo_site ''https://site.test/'' [] = Some 2
   \<and> length [''https://chat.whatsapp.com/AAA''] \<le> nat 1
   \<and> (case available_links demo_site ''https://site.test/'' [] of
         Some k \<Rightarrow> length [''https://chat.whatsapp.com/AAA''] = min (nat 1) k
       | None \<Rightarrow> length [''https://chat.whatsapp.com/AAA''] = nat 1)
   \<and> getWhatsappGroupLinks demo_site ''https://site.test/'' 1 [] \<noteq> None"
proof -
  have h: "(0::int) < 1" by simp
  have a: "available_links demo_site ''https://site.test/'' [] \<noteq> None"
    by (simp add: demo_available)
  note t2 = collector_length_min_target_available [OF h, of demo_site "''https://site.test/''" "[]", THEN conjunct2, rule_format, OF a]
  note t = collector_length_min_target_available [OF h, of demo_site "''https://site.test/''" "[]", THEN conjunct1, rule_format, OF demo_run_1]
  show ?thesis
    by (intro conjI) (rule h, rule demo_run_1, rule demo_available, rule t [THEN conjunct1], rule t [THEN conjunct2], rule t2)
qed

text \<open>
  C3. Every string in a sequence returned by the link collector contains the marker
  \<^verbatim>\<open>chat.whatsapp.com\<close>; and a card whose detail page has a call to action whose
  \<^verbatim>\<open>data-url\<close> does not contain the marker leaves the collected links as they were.
\<close>

theorem collected_links_contain_marker:
  "(\<forall>r log'. getWhatsappGroupLinks w b n log = Some (r, log') \<longrightarrow>
       (\<forall>x \<in> set r. includes_js x marker))
   \<and> (\<forall>href d u us. card_href c = Some href
         \<and> fetch_doc w lg (resolve_href b href) = Some d
         \<and> cta_data_urls d = u # us \<and> \<not> includes_js u marker
       \<longrightarrow> visit_card w b c (links, lg) = (links, lg @ [resolve_href b href]))"
proof (intro conjI allI impI)
  fix r log'
  assume run: "getWhatsappGroupLinks w b n log = Some (r, log')"
  then obtain acc where w: "while_pages w b n [] 1 log = Some (acc, log')"
    and r: "r = slice0 acc n"
    by (auto simp: getWhatsappGroupLinks_def split: option.splits)
  from while_pages_inv [OF w] have "\<forall>x \<in> set acc. includes_js x marker" by simp
  with r set_slice0 [of acc n] show "\<forall>x \<in> set r. includes_js x marker" by auto
next
  fix href d u us
  assume "card_href c = Some href
         \<and> fetch_doc w lg (resolve_href b href) = Some d
         \<and> cta_data_urls d = u # us \<and> \<not> includes_js u marker"
  then show "visit_card w b c (links, lg) = (links, lg @ [resolve_href b href])"
    by (simp add: visit_card_def)
qed

theorem collected_links_contain_marker_witness:
  "getWhatsappGroupLinks demo_site ''https://site.test/'' 5 [] =
     Some ([''https://chat.whatsapp.com/AAA'', ''https://chat.whatsapp.com/BBB''],
           [''https://site.test/?page=1'', ''https://site.test/g/abc'', ''http://other.test/x'',
            ''https://site.test/g/broken'', ''https://site.test/g/ad'', ''https://site.test/?page=2''])
   \<and> includes_js ''https://chat.whatsapp.com/AAA'' marker
   \<and> includes_js ''https://chat.whatsapp.com/BBB'' marker
   \<and> visit_card demo_site ''https://site.test/'' (Card (Some ''/g/ad'')) ([''https://chat.whatsapp.com/AAA''], [])
       = ([''https://chat.whatsapp.com/AAA''], [] @ [resolve_href ''https://site.test/'' ''/g/ad''])"
proof -
  note a = collected_links_contain_marker [of demo_site "''https://site.test/''" 5 "[]", THEN conjunct1, THEN spec,
      THEN spec, THEN mp, OF demo_run_5]
  note b = collected_links_contain_marker [THEN conjunct2, THEN spec, THEN spec, THEN spec, THEN spec, THEN mp,
      OF demo_ad_card]
  have a1: "includes_js ''https://chat.whatsapp.com/AAA'' marker"
    by (rule a [THEN bspec]) simp
  have a2: "includes_js ''https://chat.whatsapp.com/BBB'' marker"
    by (rule a [THEN bspec]) simp
  show ?thesis
    by (intro conjI) (rule demo_run_5, rule a1, rule a2, rule b)
qed

text \<open>
  C4. A failed fetch of a listing page ends the pagination loop at once, with the links
  collected so far as the result (on the first page: the empty sequence); a failed fetch of
  a detail page skips that card only, and the loop goes on with the remaining cards. In both
  cases the collector returns a value: the failure is not passed on to the caller.
\<close>

theorem fetch_failures_are_absorbed:
  "(int (length links) < n \<and> axios_get w log (page_url b pc) = None \<longrightarrow>
      while_pages w b n links pc log = Some (links, log @ [page_url b pc]))
   \<and> (0 < n \<and> axios_get w log (page_url b 1) = None \<longrightarrow>
      getWhatsappGroupLinks w b n log = Some ([], log @ [page_url b 1]))
   \<and> (int (length links) < n \<and> card_href c = Some href
        \<and> axios_get w lg (resolve_href b href) = None \<longrightarrow>
      for_cards w b n (c # cs) (links, lg) = for_cards w b n cs (links, lg @ [resolve_href b href]))
   \<and> (0 < query_num_links req \<and> axios_get w [] (page_url (query_base_url req) 1) = None \<longrightarrow>
      get_whatsapp_links w req =
        Some (Response 404 No_Links_Found, [page_url (query_base_url req) 1]))"
proof (intro conjI impI)
  assume a: "int (length links) < n \<and> axios_get w log (page_url b pc) = None"
  then show "while_pages w b n links pc log = Some (links, log @ [page_url b pc])"
    by (subst while_pages.simps) (simp add: fetch_doc_def Let_def)
next
  assume a: "0 < n \<and> axios_get w log (page_url b 1) = None"
  then have "while_pages w b n [] 1 log = Some ([], log @ [page_url b 1])"
    by (subst while_pages.simps) (simp add: fetch_doc_def Let_def)
  then show "getWhatsappGroupLinks w b n log = Some ([], log @ [page_url b 1])"
    by (simp add: getWhatsappGroupLinks_def slice0_def)
next
  assume "int (length links) < n \<and> card_href c = Some href
        \<and> axios_get w lg (resolve_href b href) = None"
  then show "for_cards w b n (c # cs) (links, lg) = for_cards w b n cs (links, lg @ [resolve_href b href])"
    by (simp add: visit_card_def fetch_doc_def)
next
  let ?b = "query_base_url req" and ?n = "query_num_links req"
  assume a: "0 < ?n \<and> axios_get w [] (page_url ?b 1) = None"
  then have "while_pages w ?b ?n [] 1 [] = Some ([], [] @ [page_url ?b 1])"
    by (subst while_pages.simps) (simp add: fetch_doc_def Let_def)
  then have "getWhatsappGroupLinks w ?b ?n [] = Some ([], [page_url ?b 1])"
    by (simp add: getWhatsappGroupLinks_def slice0_def)
  with a show "get_whatsapp_links w req =
        Some (Response 404 No_Links_Found, [page_url (query_base_url req) 1])"
    by (simp add: get_whatsapp_links_def Let_def query_base_url_nonempty)
qed

theorem fetch_failures_are_absorbed_witness:
  "while_pages demo_site ''https://site.test/'' 5
       [''https://chat.whatsapp.com/AAA'', ''https://chat.whatsapp.com/BBB''] 2
       [''https://site.test/?page=1''] =
     Some ([''https://chat.whatsapp.com/AAA'', ''https://chat.whatsapp.com/BBB''],
           [''https://site.test/?page=1''] @ [page_url ''https://site.test/'' 2])
   \<and> getWhatsappGroupLinks down_site ''https://site.test/'' 5 [] =
       Some ([], [] @ [page_url ''https://site.test/'' 1])
   \<and> for_cards demo_site ''https://site.test/'' 5
        (Card (Some ''/g/broken'') # [Card (Some ''/g/ad'')]) ([''https://chat.whatsapp.com/AAA''], []) =
      for_cards demo_site ''https://site.test/'' 5 [Card (Some ''/g/ad'')]
        ([''https://chat.whatsapp.com/AAA''], [] @ [resolve_href ''https://site.test/'' ''/g/broken''])
   \<and> get_whatsapp_links down_site \<lparr>base_url = None, num_links = None\<rparr> =
        Some (Response 404 No_Links_Found,
              [page_url (query_base_url \<lparr>base_url = None, num_links = None\<rparr>) 1])"
proof -
  note a = fetch_failures_are_absorbed [THEN conjunct1, THEN mp, OF demo_page2_fails]
  note b = fetch_failures_are_absorbed [THEN conjunct2, THEN conjunct1, THEN mp,
      OF down_site_page1_fails]
  note c = fetch_failures_are_absorbed [THEN conjunct2, THEN conjunct2, THEN conjunct1, THEN mp,
      OF demo_broken_card]
  note d = fetch_failures_are_absorbed [THEN conjunct2, THEN conjunct2, THEN conjunct2, THEN mp,
      OF down_site_default_request]
  show ?thesis by (intro conjI) (rule a, rule b, rule c, rule d)
qed

text \<open>
  C5. If the first listing page has no group card, the link collector returns the empty
  sequence; and the handler of \<^verbatim>\<open>/get_whatsapp_links\<close> answers an empty result of the
  collector with status 404.
\<close>

theorem no_cards_on_first_page_gives_404:
  "(fetch_doc w log (page_url b 1) = Some d \<and> group_cards d = [] \<longrightarrow>
      (\<exists>log'. getWhatsappGroupLinks w b n log = Some ([], log')))
   \<and> (0 < query_num_links req
        \<and> getWhatsappGroupLinks w (query_base_url req) (query_num_links req) [] = Some ([], lg) \<longrightarrow>
      get_whatsapp_links w req = Some (Response 404 No_Links_Found, lg))"
proof (intro conjI impI)
  assume a: "fetch_doc w log (page_url b 1) = Some d \<and> group_cards d = []"
  have "\<exists>log'. while_pages w b n [] 1 log = Some ([], log')"
    using a by (subst while_pages.simps) (simp add: Let_def)
  then show "\<exists>log'. getWhatsappGroupLinks w b n log = Some ([], log')"
    by (auto simp: getWhatsappGroupLinks_def slice0_def)
next
  assume "0 < query_num_links req
        \<and> getWhatsappGroupLinks w (query_base_url req) (query_num_links req) [] = Some ([], lg)"
  then show "get_whatsapp_links w req = Some (Response 404 No_Links_Found, lg)"
    by (simp add: get_whatsapp_links_def Let_def query_base_url_nonempty)
qed

theorem no_cards_on_first_page_gives_404_witness:
  "(\<exists>log'. getWhatsappGroupLinks empty_site ''https://gruposwhats.app'' 5 [] = Some ([], log'))
   \<and> get_whatsapp_links empty_site \<lparr>base_url = None, num_links = None\<rparr> =
       Some (Response 404 No_Links_Found, [''https://gruposwhats.app?page=1''])"
proof -
  note a = no_cards_on_first_page_gives_404 [THEN conjunct1, THEN mp, OF empty_site_first_page]
  note b = no_cards_on_first_page_gives_404 [THEN conjunct2, THEN mp, OF empty_site_run]
  show ?thesis by (intro conjI) (rule a, rule b)
qed

text \<open>
  C6, as amended. An href that starts with \<^verbatim>\<open>http\<close> is used unchanged. Every other href
  is joined to the base URL: one trailing slash of the base, if there is one, and one leading
  slash of the href, if there is one, are removed, and the two parts are joined with a
  single slash. So base \<^verbatim>\<open>https://site.test/\<close> and href \<^verbatim>\<open>/g/abc\<close> give
  \<^verbatim>\<open>https://site.test/g/abc\<close>.
\<close>

theorem resolve_href_by_http_prefix:
  "(prefix ''http'' href \<longrightarrow> resolve_href base href = href)
   \<and> resolve_href (b @ ''/'') (CHR ''/'' # h) = b @ ''/'' @ h
   \<and> (\<not> prefix ''http'' href \<and> (href = [] \<or> hd href \<noteq> CHR ''/'') \<longrightarrow>
        resolve_href (b @ ''/'') href = b @ ''/'' @ href)
   \<and> (base = [] \<or> last base \<noteq> CHR ''/'' \<longrightarrow> resolve_href base (CHR ''/'' # h) = base @ ''/'' @ h)
   \<and> (\<not> prefix ''http'' href \<and> (href = [] \<or> hd href \<noteq> CHR ''/'')
        \<and> (base = [] \<or> last base \<noteq> CHR ''/'') \<longrightarrow>
        resolve_href base href = base @ ''/'' @ href)"
  by (cases href)
     (auto simp: resolve_href_def strip_trailing_slash_def strip_leading_slash_def)

theorem resolve_href_by_http_prefix_witness:
  "resolve_href ''https://site.test/'' ''http://other.test/x'' = ''http://other.test/x''
   \<and> resolve_href ''https://site.test/'' ''/g/abc'' = ''https://site.test/g/abc''
   \<and> resolve_href ''https://site.test'' ''g/abc'' = ''https://site.test/g/abc''"
proof -
  note a = resolve_href_by_http_prefix [THEN conjunct1, THEN mp, OF other_has_http, of "''https://site.test/''"]
  note b = resolve_href_by_http_prefix [THEN conjunct2, THEN conjunct1, of "''https://site.test''" "''g/abc''"]
  note c = resolve_href_by_http_prefix [THEN conjunct2, THEN conjunct2, THEN conjunct2, THEN conjunct2, THEN mp,
      OF relative_no_slashes]
  from a b c show ?thesis by simp
qed

text \<open>
  C6 as stated fails: the test of the source is \<^verbatim>\<open>startsWith("http")\<close>, not the presence
  of a scheme. The href \<^verbatim>\<open>ftp://other.test/x\<close> has a scheme and is joined to the base URL.
\<close>

theorem scheme_href_is_joined_counterexample:
  "has_scheme ''ftp://other.test/x''
   \<and> resolve_href ''https://site.test/'' ''ftp://other.test/x'' = ''https://site.test/ftp://other.test/x''
   \<and> resolve_href ''https://site.test/'' ''ftp://other.test/x'' \<noteq> ''ftp://other.test/x''"
  by code_simp

text \<open>
  C7. The category lister returns, in document order, one pair of trimmed name and href for
  each category anchor of the home page whose trimmed name and href are both non-empty, and
  nothing for any other anchor.
\<close>

theorem getCategories_lists_qualifying_anchors:
  "fetch_doc w log b = Some d \<longrightarrow>
     fst (getCategories w b log) = List.map_filter category_of (category_anchors d)"
  by (simp add: getCategories_def foldl_each_category)

theorem getCategories_lists_qualifying_anchors_witness:
  "fst (getCategories demo_site ''https://site.test/'' []) =
     [\<lparr>name = ''Games'', url = ''/c/games''\<rparr>, \<lparr>name = ''Music'', url = ''/c/music''\<rparr>]"
  using getCategories_lists_qualifying_anchors [THEN mp, OF demo_home] by (simp only: demo_home_listed)

text \<open>
  C8. If the fetch or the parse of the home page fails, the category lister returns the
  empty sequence, and the handler of \<^verbatim>\<open>/get_categories\<close> answers with status 200 and
  the empty list: the failure does not reach the caller.
\<close>

theorem getCategories_failure_gives_empty:
  "(axios_get w log b = None \<or> (\<exists>body. axios_get w log b = Some body \<and> cheerio_load w body = None) \<longrightarrow>
      getCategories w b log = ([], log @ [b]))
   \<and> (axios_get w [] (query_base_url req) = None
        \<or> (\<exists>body. axios_get w [] (query_base_url req) = Some body \<and> cheerio_load w body = None) \<longrightarrow>
      get_categories w req = (Response 200 (Categories []), [query_base_url req]))"
proof -
  have "getCategories w b log = ([], log @ [b])"
    if "axios_get w log b = None \<or> (\<exists>body. axios_get w log b = Some body \<and> cheerio_load w body = None)"
    for b log
  proof -
    from that have "fetch_doc w log b = None" by (auto simp: fetch_doc_def)
    then show ?thesis by (simp add: getCategories_def)
  qed
  then show ?thesis by (simp add: get_categories_def Let_def)
qed

theorem getCategories_failure_gives_empty_witness:
  "getCategories down_site ''https://site.test/'' [] = ([], [] @ [''https://site.test/''])
   \<and> get_categories demo_site \<lparr>base_url = Some ''https://site.test/bad'', num_links = None\<rparr> =
       (Response 200 (Categories []),
        [query_base_url \<lparr>base_url = Some ''https://site.test/bad'', num_links = None\<rparr>])"
proof -
  note a = getCategories_failure_gives_empty [THEN conjunct1, THEN mp, OF down_site_fails]
  note b = getCategories_failure_gives_empty [THEN conjunct2, THEN mp, OF demo_bad_fails]
  show ?thesis by (intro conjI) (rule a, rule b)
qed

text \<open>
  C9. There is a behaviour of the collaborators under which every fetch succeeds, every
  page has at least one group card and no call to action is an invite link, and under it
  the link collector, called with any target greater than 0, never returns: the
  pagination loop runs forever.
\<close>

theorem collector_may_never_return:
  "\<exists>w. (\<forall>log u. \<exists>d. fetch_doc w log u = Some d \<and> group_cards d \<noteq> []
                     \<and> (\<forall>x \<in> set (cta_data_urls d). \<not> includes_js x marker))
      \<and> (\<forall>b n log. 0 < n \<longrightarrow> getWhatsappGroupLinks w b n log = None)"
proof (intro exI [of _ stuck_site] conjI allI impI)
  fix log u
  show "\<exists>d. fetch_doc stuck_site log u = Some d \<and> group_cards d \<noteq> []
                     \<and> (\<forall>x \<in> set (cta_data_urls d). \<not> includes_js x marker)"
    by (simp add: stuck_site_fetch marker_def)
next
  fix b :: string and n :: int and log :: "string list"
  assume "0 < n"
  then show "getWhatsappGroupLinks stuck_site b n log = None"
    by (rule never_invite_diverges) (simp_all add: stuck_site_fetch marker_def)
qed

theorem collector_may_never_return_witness:
  "\<exists>w. (\<exists>d. fetch_doc w [] (page_url ''https://site.test'' 1) = Some d \<and> group_cards d \<noteq> [])
      \<and> (0::int) < 5
      \<and> getWhatsappGroupLinks w ''https://site.test'' 5 [] = None"
proof -
  from collector_may_never_return obtain w where
    a: "\<forall>log u. \<exists>d. fetch_doc w log u = Some d \<and> group_cards d \<noteq> []
                     \<and> (\<forall>x \<in> set (cta_data_urls d). \<not> includes_js x marker)"
    and b: "\<forall>b n log. 0 < n \<longrightarrow> getWhatsappGroupLinks w b n log = None"
    by blast
  have h: "(0::int) < 5" by simp
  from b h have "getWhatsappGroupLinks w ''https://site.test'' 5 [] = None" by blast
  moreover from a have "\<exists>d. fetch_doc w [] (page_url ''https://site.test'' 1) = Some d \<and> group_cards d \<noteq> []"
    by blast
  ultimately show ?thesis using h by blast
qed

text \<open>
  C10. When \<^verbatim>\<open>num_links\<close> is absent, is not numeric, or parses to 0, the handler uses
  the default 5: the request is not answered with status 400, and the response is the one
  that the collection with target 5 gives.
\<close>

theorem falsy_num_links_defaults_to_five:
  "(num_links req = None
      \<or> (\<exists>s. num_links req = Some s \<and> (parseInt s = None \<or> parseInt s = Some 0))) \<longrightarrow>
   query_num_links req = 5
   \<and> get_whatsapp_links w req =
       (case getWhatsappGroupLinks w (query_base_url req) 5 [] of
          None \<Rightarrow> None
        | Some (links, lg) \<Rightarrow>
            if links = [] then Some (Response 404 No_Links_Found, lg)
            else Some (Response 200 (Links links), lg))
   \<and> (\<forall>resp lg. get_whatsapp_links w req = Some (resp, lg) \<longrightarrow> status resp \<noteq> 400)"
proof
  assume a: "num_links req = None
      \<or> (\<exists>s. num_links req = Some s \<and> (parseInt s = None \<or> parseInt s = Some 0))"
  then have five: "query_num_links req = 5"
    by (auto simp: query_num_links_def parseInt_undefined)
  then have eq: "get_whatsapp_links w req =
       (case getWhatsappGroupLinks w (query_base_url req) 5 [] of
          None \<Rightarrow> None
        | Some (links, lg) \<Rightarrow>
            if links = [] then Some (Response 404 No_Links_Found, lg)
            else Some (Response 200 (Links links), lg))"
    by (auto simp: get_whatsapp_links_def Let_def query_base_url_nonempty split: option.splits)
  have "status resp \<noteq> 400" if "get_whatsapp_links w req = Some (resp, lg)" for resp lg
    using that unfolding eq by (auto split: option.splits if_splits)
  with five eq show "query_num_links req = 5
   \<and> get_whatsapp_links w req =
       (case getWhatsappGroupLinks w (query_base_url req) 5 [] of
          None \<Rightarrow> None
        | Some (links, lg) \<Rightarrow>
            if links = [] then Some (Response 404 No_Links_Found, lg)
            else Some (Response 200 (Links links), lg))
   \<and> (\<forall>resp lg. get_whatsapp_links w req = Some (resp, lg) \<longrightarrow> status resp \<noteq> 400)"
    by blast
qed

theorem falsy_num_links_defaults_to_five_witness:
  "query_num_links \<lparr>base_url = Some ''https://site.test/'', num_links = None\<rparr> = 5
   \<and> query_num_links \<lparr>base_url = Some ''https://site.test/'', num_links = Some ''many''\<rparr> = 5
   \<and> query_num_links \<lparr>base_url = Some ''https://site.test/'', num_links = Some ''0''\<rparr> = 5
   \<and> query_num_links \<lparr>base_url = Some ''https://site.test/'', num_links = Some [CHR 0xA0, CHR ''0'']\<rparr> = 5
   \<and> get_whatsapp_links demo_site \<lparr>base_url = Some ''https://site.test/'', num_links = Some ''0''\<rparr> =
       Some (Response 200 (Links [''https://chat.whatsapp.com/AAA'', ''https://chat.whatsapp.com/BBB'']),
             [''https://site.test/?page=1'', ''https://site.test/g/abc'', ''http://other.test/x'',
              ''https://site.test/g/broken'', ''https://site.test/g/ad'', ''https://site.test/?page=2''])
   \<and> status (Response 200 (Links [''https://chat.whatsapp.com/AAA'', ''https://chat.whatsapp.com/BBB'']))
       \<noteq> 400"
proof -
  have e: "getWhatsappGroupLinks demo_site
       (query_base_url \<lparr>base_url = Some ''https://site.test/'', num_links = Some ''0''\<rparr>) 5 [] =
     Some ([''https://chat.whatsapp.com/AAA'', ''https://chat.whatsapp.com/BBB''],
           [''https://site.test/?page=1'', ''https://site.test/g/abc'', ''http://other.test/x'',
            ''https://site.test/g/broken'', ''https://site.test/g/ad'', ''https://site.test/?page=2''])"
    by code_simp
  note a = falsy_num_links_defaults_to_five [THEN mp, OF absent_num_links, THEN conjunct1]
  note b = falsy_num_links_defaults_to_five [THEN mp, OF nonnumeric_num_links, THEN conjunct1]
  note c = falsy_num_links_defaults_to_five [THEN mp, OF zero_num_links, THEN conjunct1]
  note c' = falsy_num_links_defaults_to_five [THEN mp, OF nbsp_zero_num_links, THEN conjunct1]
  note d = falsy_num_links_defaults_to_five [THEN mp, OF zero_num_links, THEN conjunct2,
      THEN conjunct1, of demo_site]
  from d have d': "get_whatsapp_links demo_site
       \<lparr>base_url = Some ''https://site.test/'', num_links = Some ''0''\<rparr> =
       Some (Response 200 (Links [''https://chat.whatsapp.com/AAA'', ''https://chat.whatsapp.com/BBB'']),
             [''https://site.test/?page=1'', ''https://site.test/g/abc'', ''http://other.test/x'',
              ''https://site.test/g/broken'', ''https://site.test/g/ad'', ''https://site.test/?page=2''])"
    by (simp only: e option.case prod.case list.distinct if_False)
  note f = falsy_num_links_defaults_to_five [THEN mp, OF zero_num_links, THEN conjunct2,
      THEN conjunct2, THEN spec, THEN spec, THEN mp, OF d']
  show ?thesis by (intro conjI) (rule a, rule b, rule c, rule c', rule d', rule f)
qed

end
